theory Spec2Isabelle
  imports Complex_Main "HOL-Library.Word" "HOL-Library.Sublist"
begin

section \<open>The meditation app: phase sequencer, starfield renderer, input coupling\<close>

text \<open>
  A shallow embedding of \<^verbatim>\<open>src/App.tsx\<close>. The component's React state, its refs, the
  browser's pending one-shot timers and the clock are the fields of one record; every
  callback of the source is a function from state to state. JavaScript numbers are
  modelled as real numbers; where the rounding of IEEE doubles decides a statement (the
  limit of the easing step) the step is given in double precision as well. Times are
  whole milliseconds counted from mount, and \<^verbatim>\<open>Math.random\<close> is an arbitrary
  stream of numbers of which the state holds the read position. The audio effect and
  the focus flag touch none of the modelled fields and are left out.
\<close>

subsection \<open>Data\<close>

text \<open>\<^verbatim>\<open>interface Star\<close>; the optional fields are \<^verbatim>\<open>undefined\<close> when \<open>None\<close>.\<close>

record Star =
  star_x :: real
  star_y :: real
  star_z :: real
  prevX :: "real option"
  prevY :: "real option"

datatype AppPhase = silence | breath | awakening | ready

text \<open>The closures handed to \<^verbatim>\<open>setTimeout\<close>, in the order they appear in the source.\<close>

datatype callback =
    SilenceTimer
  | BreathStep real
  | AwakeningTimer
  | ReadyTimer
  | VisibleTimer
  | BurstTimer

record timer =
  timer_id :: nat
  due :: nat
  cb :: callback

text \<open>What one frame paints on the canvas.\<close>

datatype draw =
    FillRect real real
  | Line real real real real real real
  | Arc real real real real

text \<open>A JavaScript string is a sequence of UTF-16 code units.\<close>

type_synonym jsstring = "16 word list"

record app =
  phase :: AppPhase
  breathOpacity :: real
  isVisible :: bool
  inputValue :: jsstring
  isSimulating :: bool
  starsRef :: "Star list"
  speedRef :: real
  targetSpeedRef :: real
  frameScheduled :: bool
  resizeListener :: bool
  canvasWidth :: nat
  canvasHeight :: nat
  innerWidth :: nat
  innerHeight :: nat
  hasContext :: bool
  random :: "nat \<Rightarrow> real"
  randomPos :: nat
  painted :: "draw list"
  timers :: "timer list"
  nextTimerId :: nat
  silenceTimerId :: nat
  clock :: nat
  mounted :: bool
  phaseLog :: "AppPhase list"

subsection \<open>Timers\<close>

definition setTimeout :: "callback \<Rightarrow> nat \<Rightarrow> app \<Rightarrow> app" where
  "setTimeout c delay s =
     s\<lparr>timers := timers s @ [\<lparr>timer_id = nextTimerId s, due = clock s + delay, cb = c\<rparr>],
       nextTimerId := Suc (nextTimerId s)\<rparr>"

definition clearTimeout :: "nat \<Rightarrow> app \<Rightarrow> app" where
  "clearTimeout i s = s\<lparr>timers := filter (\<lambda>t. timer_id t \<noteq> i) (timers s)\<rparr>"

text \<open>The pending timer that fires next: the least due time, the one armed first on a tie.\<close>

fun earliest :: "timer list \<Rightarrow> timer option" where
  "earliest [] = None"
| "earliest (t # ts) =
     (case earliest ts of
        None \<Rightarrow> Some t
      | Some u \<Rightarrow> if due u < due t then Some u else Some t)"

subsection \<open>The starfield renderer\<close>

definition NUM_STARS :: nat where "NUM_STARS = 100"
definition MAX_Z :: real where "MAX_Z = 2.5"
definition MIN_Z :: real where "MIN_Z = 0.001"

definition newStar :: "(nat \<Rightarrow> real) \<Rightarrow> nat \<Rightarrow> Star" where
  "newStar rnd k =
     \<lparr>star_x = (rnd k - 0.5) * 2,
      star_y = (rnd (k + 1) - 0.5) * 2,
      star_z = rnd (k + 2) * (MAX_Z - MIN_Z) + MIN_Z,
      prevX = None, prevY = None\<rparr>"

definition initStars :: "app \<Rightarrow> app" where
  "initStars s =
     s\<lparr>starsRef := map (\<lambda>i. newStar (random s) (randomPos s + 3 * i)) [0..<NUM_STARS],
       randomPos := randomPos s + 3 * NUM_STARS\<rparr>"

text \<open>The easing assignment at the head of \<^verbatim>\<open>animate\<close>.\<close>

definition ease :: "real \<Rightarrow> real \<Rightarrow> real" where
  "ease current target = current + (target - current) * 0.05"

text \<open>The first half of the loop body: move the star towards the viewer, respawn it at
  the far plane when it has passed the near plane. A respawn reads two random numbers.\<close>

definition moveStar :: "real \<Rightarrow> (nat \<Rightarrow> real) \<Rightarrow> nat \<Rightarrow> Star \<Rightarrow> Star \<times> nat" where
  "moveStar speed rnd k st =
     (let z1 = star_z st - speed in
      if z1 \<le> MIN_Z
      then (\<lparr>star_x = (rnd k - 0.5) * 2, star_y = (rnd (k + 1) - 0.5) * 2,
             star_z = MAX_Z, prevX = None, prevY = None\<rparr>, k + 2)
      else (st\<lparr>star_z := z1\<rparr>, k))"

definition projX :: "nat \<Rightarrow> Star \<Rightarrow> real" where
  "projX w st = star_x st * (1 / star_z st) * (real w / 2) + real w / 2"

definition projY :: "nat \<Rightarrow> Star \<Rightarrow> real" where
  "projY h st = star_y st * (1 / star_z st) * (real h / 2) + real h / 2"

definition offSurface :: "nat \<Rightarrow> nat \<Rightarrow> Star \<Rightarrow> bool" where
  "offSurface w h st \<longleftrightarrow>
     projX w st < - 50 \<or> projX w st > real w + 50 \<or>
     projY h st < - 50 \<or> projY h st > real h + 50"

text \<open>The second half of the loop body: project, leave early when the projection is off
  the surface, otherwise draw the trail and the dot and remember the projection.\<close>

definition drawStar :: "nat \<Rightarrow> nat \<Rightarrow> Star \<Rightarrow> Star \<times> draw list" where
  "drawStar w h st =
     (let x = projX w st; y = projY h st in
      if offSurface w h st then (st, [])
      else
        let size = max 0 ((1 - star_z st / MAX_Z) * 2);
            opacity = min 1 ((1 - star_z st / MAX_Z) * 1.5);
            trail = (case (prevX st, prevY st) of
                       (Some px, Some py) \<Rightarrow>
                         if star_z st < 0.5
                         then [Line px py x y (opacity * 0.6) (size * 0.5)] else []
                     | _ \<Rightarrow> [])
        in (st\<lparr>prevX := Some x, prevY := Some y\<rparr>, trail @ [Arc x y size opacity]))"

definition stepStar ::
  "real \<Rightarrow> nat \<Rightarrow> nat \<Rightarrow> (nat \<Rightarrow> real) \<Rightarrow> nat \<Rightarrow> Star \<Rightarrow> Star \<times> draw list \<times> nat" where
  "stepStar speed w h rnd k st =
     (let (st1, k1) = moveStar speed rnd k st;
          (st2, ds) = drawStar w h st1
      in (st2, ds, k1))"

text \<open>\<^verbatim>\<open>starsRef.current.forEach\<close>: the stars in order, the random position threaded.\<close>

fun stepStars ::
  "real \<Rightarrow> nat \<Rightarrow> nat \<Rightarrow> (nat \<Rightarrow> real) \<Rightarrow> nat \<Rightarrow> Star list \<Rightarrow> Star list \<times> draw list \<times> nat" where
  "stepStars speed w h rnd k [] = ([], [], k)"
| "stepStars speed w h rnd k (st # sts) =
     (let (st', ds, k1) = stepStar speed w h rnd k st;
          (sts', ds', k2) = stepStars speed w h rnd k1 sts
      in (st' # sts', ds @ ds', k2))"

definition animate :: "app \<Rightarrow> app" where
  "animate s =
     (let speed = ease (speedRef s) (targetSpeedRef s);
          (sts, ds, k) =
            stepStars speed (canvasWidth s) (canvasHeight s) (random s) (randomPos s) (starsRef s)
      in s\<lparr>speedRef := speed, starsRef := sts, randomPos := k,
            painted := FillRect (real (canvasWidth s)) (real (canvasHeight s)) # ds,
            frameScheduled := True\<rparr>)"

definition setCanvasSize :: "app \<Rightarrow> app" where
  "setCanvasSize s = s\<lparr>canvasWidth := innerWidth s, canvasHeight := innerHeight s\<rparr>"

text \<open>The effect with dependency \<^verbatim>\<open>[phase]\<close> that owns the canvas, and its cleanup.\<close>

definition rendererEffect :: "app \<Rightarrow> app" where
  "rendererEffect s =
     (if phase s = silence \<or> phase s = breath then s
      else if \<not> hasContext s then s
      else
        let s1 = (setCanvasSize s)\<lparr>resizeListener := True\<rparr>;
            s2 = (if length (starsRef s1) = 0 then initStars s1 else s1)
        in animate s2)"

definition rendererCleanup :: "app \<Rightarrow> app" where
  "rendererCleanup s = s\<lparr>resizeListener := False, frameScheduled := False\<rparr>"

subsection \<open>State setters and re-rendering\<close>

text \<open>React drops a state update on an unmounted component, and an update to the value
  the state already has causes no re-render. \<open>phaseLog\<close> is a history variable: every
  value the phase has taken, oldest first.\<close>

definition setPhase :: "AppPhase \<Rightarrow> app \<Rightarrow> app" where
  "setPhase p s =
     (if mounted s \<and> phase s \<noteq> p then s\<lparr>phase := p, phaseLog := phaseLog s @ [p]\<rparr> else s)"

definition setBreathOpacity :: "real \<Rightarrow> app \<Rightarrow> app" where
  "setBreathOpacity v s = (if mounted s then s\<lparr>breathOpacity := v\<rparr> else s)"

definition setIsVisible :: "bool \<Rightarrow> app \<Rightarrow> app" where
  "setIsVisible v s = (if mounted s then s\<lparr>isVisible := v\<rparr> else s)"

definition setIsSimulating :: "bool \<Rightarrow> app \<Rightarrow> app" where
  "setIsSimulating v s = (if mounted s then s\<lparr>isSimulating := v\<rparr> else s)"

text \<open>After a callback that changed the phase, the effects that depend on the phase run
  again: the cleanup of the previous run, then the effect.\<close>

definition commit :: "AppPhase \<Rightarrow> app \<Rightarrow> app" where
  "commit old s = (if phase s \<noteq> old then rendererEffect (rendererCleanup s) else s)"

subsection \<open>The phase sequencer\<close>

definition breathSequence :: "(nat \<times> real) list" where
  "breathSequence = [(0, 0), (800, 0.3), (1600, 0.1), (2400, 0.25), (3200, 0)]"

definition silenceBody :: "app \<Rightarrow> app" where
  "silenceBody s =
     setTimeout VisibleTimer 9000
       (setTimeout ReadyTimer 6500
         (setTimeout AwakeningTimer 3500
           (foldl (\<lambda>a (time, opacity). setTimeout (BreathStep opacity) time a)
              (setPhase breath s) breathSequence)))"

fun runCallback :: "callback \<Rightarrow> app \<Rightarrow> app" where
  "runCallback SilenceTimer s = commit (phase s) (silenceBody s)"
| "runCallback (BreathStep v) s = setBreathOpacity v s"
| "runCallback AwakeningTimer s = commit (phase s) ((setPhase awakening s)\<lparr>targetSpeedRef := 0.002\<rparr>)"
| "runCallback ReadyTimer s = commit (phase s) (setPhase ready s)"
| "runCallback VisibleTimer s = setIsVisible True s"
| "runCallback BurstTimer s = s\<lparr>targetSpeedRef := 0.006\<rparr>"

subsection \<open>The input coupling and the action trigger\<close>

text \<open>The effect with dependency \<^verbatim>\<open>[inputValue]\<close>.\<close>

definition inputEffect :: "app \<Rightarrow> app" where
  "inputEffect s =
     (if length (inputValue s) > 0 then s\<lparr>targetSpeedRef := 0.003\<rparr>
      else s\<lparr>targetSpeedRef := 0.002\<rparr>)"

text \<open>\<^verbatim>\<open>String.prototype.trim\<close> strips white space and line terminators from both ends.\<close>

definition isWhiteSpace :: "16 word \<Rightarrow> bool" where
  "isWhiteSpace c \<longleftrightarrow>
     c \<in> {0x9, 0xA, 0xB, 0xC, 0xD, 0x20, 0xA0, 0x1680, 0x2028, 0x2029, 0x202F, 0x205F,
          0x3000, 0xFEFF}
     \<or> (0x2000 \<le> c \<and> c \<le> 0x200A)"

definition trim :: "jsstring \<Rightarrow> jsstring" where
  "trim v = rev (dropWhile isWhiteSpace (rev (dropWhile isWhiteSpace v)))"

text \<open>The button's \<^verbatim>\<open>disabled\<close> attribute: the empty string is falsy.\<close>

definition disabled :: "app \<Rightarrow> bool" where
  "disabled s \<longleftrightarrow> trim (inputValue s) = []"

definition handleSimulationStart :: "app \<Rightarrow> app" where
  "handleSimulationStart s =
     setTimeout BurstTimer 3500 ((setIsSimulating True s)\<lparr>targetSpeedRef := 0.018\<rparr>)"

subsection \<open>Mounting, the event loop and the events from outside\<close>

text \<open>The first render followed by the effects in source order: the sequencer arms its
  timer, the renderer effect returns at once (the phase is silence), the input effect
  writes the target speed.\<close>

definition initial :: "(nat \<Rightarrow> real) \<Rightarrow> nat \<Rightarrow> nat \<Rightarrow> bool \<Rightarrow> app" where
  "initial rnd w h ctx =
     \<lparr>phase = silence, breathOpacity = 0, isVisible = False, inputValue = [],
      isSimulating = False, starsRef = [], speedRef = 0.001, targetSpeedRef = 0.001,
      frameScheduled = False, resizeListener = False, canvasWidth = 0, canvasHeight = 0,
      innerWidth = w, innerHeight = h, hasContext = ctx, random = rnd, randomPos = 0,
      painted = [], timers = [], nextTimerId = 0, silenceTimerId = 0, clock = 0,
      mounted = True, phaseLog = [silence]\<rparr>"

definition sequencerEffect :: "app \<Rightarrow> app" where
  "sequencerEffect s = setTimeout SilenceTimer 2500 (s\<lparr>silenceTimerId := nextTimerId s\<rparr>)"

definition sequencerCleanup :: "app \<Rightarrow> app" where
  "sequencerCleanup s = clearTimeout (silenceTimerId s) s"

definition mount :: "(nat \<Rightarrow> real) \<Rightarrow> nat \<Rightarrow> nat \<Rightarrow> bool \<Rightarrow> app" where
  "mount rnd w h ctx = inputEffect (rendererEffect (sequencerEffect (initial rnd w h ctx)))"

definition unmount :: "app \<Rightarrow> app" where
  "unmount s =
     (if mounted s then (rendererCleanup (sequencerCleanup s))\<lparr>mounted := False\<rparr> else s)"

text \<open>One turn of the event loop for a timer: it leaves the queue, the clock stands at
  its due time, its callback runs.\<close>

definition fire :: "timer \<Rightarrow> app \<Rightarrow> app" where
  "fire t s =
     runCallback (cb t)
       (s\<lparr>timers := filter (\<lambda>u. timer_id u \<noteq> timer_id t) (timers s),
          clock := max (clock s) (due t)\<rparr>)"

fun weight :: "callback \<Rightarrow> nat" where
  "weight SilenceTimer = 9"
| "weight _ = 1"

definition pendingWeight :: "app \<Rightarrow> nat" where
  "pendingWeight s = sum_list (map (\<lambda>t. weight (cb t)) (timers s))"

text \<open>Let the clock reach \<open>till\<close>: the timers due by then fire in order, each callback
  running to completion before the next timer is looked at.\<close>

function advance :: "nat \<Rightarrow> app \<Rightarrow> app" where
  "advance till s =
     (case earliest (timers s) of
        None \<Rightarrow> s\<lparr>clock := max (clock s) till\<rparr>
      | Some t \<Rightarrow>
          if due t \<le> till then advance till (fire t s)
          else s\<lparr>clock := max (clock s) till\<rparr>)"
  by pat_completeness auto

text \<open>What reaches the component from outside: time passing, an animation frame, a
  resize of the window, an edit of the text area, a press of the button, teardown. The
  text area and the button exist only in the ready phase, and a disabled button
  delivers no click.\<close>

datatype event =
    Wait nat
  | Frame
  | Resize nat nat
  | Input jsstring
  | Click
  | Unmount

fun step :: "app \<Rightarrow> event \<Rightarrow> app" where
  "step s (Wait d) = advance (clock s + d) s"
| "step s Frame = (if frameScheduled s then animate s else s)"
| "step s (Resize w h) =
     (let s1 = s\<lparr>innerWidth := w, innerHeight := h\<rparr>
      in if resizeListener s1 then setCanvasSize s1 else s1)"
| "step s (Input v) =
     (if mounted s \<and> phase s = ready \<and> v \<noteq> inputValue s
      then inputEffect (s\<lparr>inputValue := v\<rparr>) else s)"
| "step s Click =
     (if mounted s \<and> phase s = ready \<and> \<not> disabled s then handleSimulationStart s else s)"
| "step s Unmount = unmount s"

definition run :: "app \<Rightarrow> event list \<Rightarrow> app" where
  "run s es = foldl step s es"

subsection \<open>The sequencer's well-formed states\<close>

text \<open>The order of the phases, the schedule the silence callback arms (due times from
  mount), the pending timers of the sequencer, and the number of phases seen once the
  first \<open>k\<close> entries of the schedule have fired.\<close>

definition phaseOrder :: "AppPhase list" where
  "phaseOrder = [silence, breath, awakening, ready]"

definition schedule :: "(nat \<times> callback) list" where
  "schedule =
     [(2500, BreathStep 0), (3300, BreathStep 0.3), (4100, BreathStep 0.1),
      (4900, BreathStep 0.25), (5700, BreathStep 0), (6000, AwakeningTimer),
      (9000, ReadyTimer), (11500, VisibleTimer)]"

definition pendingSeq :: "app \<Rightarrow> (nat \<times> callback) list" where
  "pendingSeq s = map (\<lambda>t. (due t, cb t)) (filter (\<lambda>t. cb t \<noteq> BurstTimer) (timers s))"

definition phasesBy :: "nat \<Rightarrow> nat" where
  "phasesBy k = (if k \<le> 5 then 2 else if k = 6 then 3 else 4)"

text \<open>Timer handles are unique and below the next handle, and no pending timer is
  overdue.\<close>

definition idsOK :: "app \<Rightarrow> bool" where
  "idsOK s \<longleftrightarrow>
     distinct (map timer_id (timers s)) \<and>
     (\<forall>t\<in>set (timers s). timer_id t < nextTimerId s \<and> clock s \<le> due t) \<and>
     silenceTimerId s < nextTimerId s"

text \<open>The phase history is an initial piece of the phase order, the phase is its last
  entry, and text can only have been typed in the ready phase.\<close>

definition logOK :: "app \<Rightarrow> bool" where
  "logOK s \<longleftrightarrow>
     phaseLog s \<in> {take 1 phaseOrder, take 2 phaseOrder, take 3 phaseOrder, phaseOrder} \<and>
     phase s = last (phaseLog s) \<and>
     (inputValue s \<noteq> [] \<longrightarrow> phase s = ready)"

text \<open>The silence callback has run and the first \<open>k\<close> entries of its schedule have
  fired. An unmounted component may have seen fewer phases than the schedule set.\<close>

definition scheduled :: "nat \<Rightarrow> app \<Rightarrow> bool" where
  "scheduled k s \<longleftrightarrow>
     k \<le> 8 \<and> pendingSeq s = drop k schedule \<and>
     2 \<le> length (phaseLog s) \<and> length (phaseLog s) \<le> phasesBy k \<and>
     (mounted s \<longrightarrow> length (phaseLog s) = phasesBy k) \<and>
     (\<forall>t\<in>set (timers s). timer_id t \<noteq> silenceTimerId s)"

text \<open>The three stages of the sequencer: waiting for the silence timer, torn down
  before it fired, or somewhere in the schedule.\<close>

definition stage :: "app \<Rightarrow> bool" where
  "stage s \<longleftrightarrow>
     (pendingSeq s = [(2500, SilenceTimer)] \<and> mounted s \<and> length (phaseLog s) = 1 \<and>
        (\<forall>t\<in>set (timers s). timer_id t = silenceTimerId s))
     \<or> (pendingSeq s = [] \<and> \<not> mounted s \<and> length (phaseLog s) = 1)
     \<or> (\<exists>k. scheduled k s)"

definition wellFormed :: "app \<Rightarrow> bool" where
  "wellFormed s \<longleftrightarrow> idsOK s \<and> logOK s \<and> stage s"

subsection \<open>Runs without a button press\<close>

text \<open>The coupling invariant of a run in which the button is never pressed: the target
  speed is decided by the text alone and no burst timer is pending.\<close>

definition coupled :: "app \<Rightarrow> bool" where
  "coupled s \<longleftrightarrow>
     targetSpeedRef s = (if inputValue s = [] then 0.002 else 0.003) \<and>
     (\<forall>t\<in>set (timers s). cb t \<noteq> BurstTimer)"

subsection \<open>Passive events\<close>






subsection \<open>The depth invariant\<close>




subsection \<open>The easing step in double precision\<close>





subsection \<open>Which fields each operation leaves alone\<close>

lemma animate_fields [simp]:
  "timers (animate s) = timers s" "clock (animate s) = clock s"
  "nextTimerId (animate s) = nextTimerId s" "silenceTimerId (animate s) = silenceTimerId s"
  "phase (animate s) = phase s" "phaseLog (animate s) = phaseLog s"
  "mounted (animate s) = mounted s" "breathOpacity (animate s) = breathOpacity s"
  "isVisible (animate s) = isVisible s" "inputValue (animate s) = inputValue s"
  "isSimulating (animate s) = isSimulating s"
  "targetSpeedRef (animate s) = targetSpeedRef s" "random (animate s) = random s"
  "hasContext (animate s) = hasContext s" "resizeListener (animate s) = resizeListener s"
  "canvasWidth (animate s) = canvasWidth s" "canvasHeight (animate s) = canvasHeight s"
  "innerWidth (animate s) = innerWidth s" "innerHeight (animate s) = innerHeight s"
  "frameScheduled (animate s) = True"
  "speedRef (animate s) = ease (speedRef s) (targetSpeedRef s)"
  by (simp_all add: animate_def Let_def split: prod.splits)

lemma rendererEffect_fields [simp]:
  "timers (rendererEffect s) = timers s" "clock (rendererEffect s) = clock s"
  "nextTimerId (rendererEffect s) = nextTimerId s"
  "silenceTimerId (rendererEffect s) = silenceTimerId s"
  "phase (rendererEffect s) = phase s" "phaseLog (rendererEffect s) = phaseLog s"
  "mounted (rendererEffect s) = mounted s" "breathOpacity (rendererEffect s) = breathOpacity s"
  "isVisible (rendererEffect s) = isVisible s" "inputValue (rendererEffect s) = inputValue s"
  "isSimulating (rendererEffect s) = isSimulating s"
  "targetSpeedRef (rendererEffect s) = targetSpeedRef s" "random (rendererEffect s) = random s"
  "hasContext (rendererEffect s) = hasContext s"
  "innerWidth (rendererEffect s) = innerWidth s" "innerHeight (rendererEffect s) = innerHeight s"
  by (simp_all add: rendererEffect_def Let_def setCanvasSize_def initStars_def)

lemma commit_fields [simp]:
  "timers (commit p s) = timers s" "clock (commit p s) = clock s"
  "nextTimerId (commit p s) = nextTimerId s" "silenceTimerId (commit p s) = silenceTimerId s"
  "phase (commit p s) = phase s" "phaseLog (commit p s) = phaseLog s"
  "mounted (commit p s) = mounted s" "breathOpacity (commit p s) = breathOpacity s"
  "isVisible (commit p s) = isVisible s" "inputValue (commit p s) = inputValue s"
  "isSimulating (commit p s) = isSimulating s"
  "targetSpeedRef (commit p s) = targetSpeedRef s" "random (commit p s) = random s"
  "hasContext (commit p s) = hasContext s"
  "innerWidth (commit p s) = innerWidth s" "innerHeight (commit p s) = innerHeight s"
  by (simp_all add: commit_def rendererCleanup_def)

lemma timers_silenceBody:
  "timers (silenceBody s) = timers s @
     [\<lparr>timer_id = nextTimerId s, due = clock s, cb = BreathStep 0\<rparr>,
      \<lparr>timer_id = nextTimerId s + 1, due = clock s + 800, cb = BreathStep 0.3\<rparr>,
      \<lparr>timer_id = nextTimerId s + 2, due = clock s + 1600, cb = BreathStep 0.1\<rparr>,
      \<lparr>timer_id = nextTimerId s + 3, due = clock s + 2400, cb = BreathStep 0.25\<rparr>,
      \<lparr>timer_id = nextTimerId s + 4, due = clock s + 3200, cb = BreathStep 0\<rparr>,
      \<lparr>timer_id = nextTimerId s + 5, due = clock s + 3500, cb = AwakeningTimer\<rparr>,
      \<lparr>timer_id = nextTimerId s + 6, due = clock s + 6500, cb = ReadyTimer\<rparr>,
      \<lparr>timer_id = nextTimerId s + 7, due = clock s + 9000, cb = VisibleTimer\<rparr>]"
  by (simp add: silenceBody_def breathSequence_def setTimeout_def setPhase_def)

lemma silenceBody_fields [simp]:
  "clock (silenceBody s) = clock s"
  "nextTimerId (silenceBody s) = nextTimerId s + 8"
  "silenceTimerId (silenceBody s) = silenceTimerId s"
  "phase (silenceBody s) = phase (setPhase breath s)"
  "phaseLog (silenceBody s) = phaseLog (setPhase breath s)"
  "mounted (silenceBody s) = mounted s" "breathOpacity (silenceBody s) = breathOpacity s"
  "isVisible (silenceBody s) = isVisible s" "inputValue (silenceBody s) = inputValue s"
  "isSimulating (silenceBody s) = isSimulating s"
  "targetSpeedRef (silenceBody s) = targetSpeedRef s" "random (silenceBody s) = random s"
  "speedRef (silenceBody s) = speedRef s" "starsRef (silenceBody s) = starsRef s"
  "hasContext (silenceBody s) = hasContext s"
  "innerWidth (silenceBody s) = innerWidth s" "innerHeight (silenceBody s) = innerHeight s"
  by (simp_all add: silenceBody_def breathSequence_def setTimeout_def setPhase_def)

subsection \<open>The event loop terminates\<close>

lemma pendingWeight_runCallback:
  "pendingWeight (runCallback c s) < pendingWeight s + weight c"
  by (cases c)
    (simp_all add: pendingWeight_def timers_silenceBody setBreathOpacity_def setIsVisible_def
      setPhase_def)

lemma earliest_mem: "earliest ts = Some t \<Longrightarrow> t \<in> set ts"
  by (induction ts arbitrary: t) (auto split: option.splits if_splits)

lemma weight_filter_mono:
  "sum_list (map (\<lambda>t. weight (cb t)) (filter P ts)) \<le> sum_list (map (\<lambda>t. weight (cb t)) ts)"
  by (induction ts) auto

lemma weight_filter_le:
  "t \<in> set ts \<Longrightarrow>
   sum_list (map (\<lambda>t. weight (cb t)) (filter (\<lambda>u. timer_id u \<noteq> timer_id t) ts)) + weight (cb t)
     \<le> sum_list (map (\<lambda>t. weight (cb t)) ts)"
proof (induction ts)
  case Nil
  then show ?case by simp
next
  case (Cons a ts)
  show ?case
  proof (cases "a = t")
    case True
    then show ?thesis
      using weight_filter_mono [of "\<lambda>u. timer_id u \<noteq> timer_id t" ts] by simp
  next
    case False
    then have "t \<in> set ts" using Cons.prems by auto
    then show ?thesis using Cons.IH by simp
  qed
qed

lemma pendingWeight_fire:
  assumes "earliest (timers s) = Some t"
  shows "pendingWeight (fire t s) < pendingWeight s"
proof -
  let ?s = "s\<lparr>timers := filter (\<lambda>u. timer_id u \<noteq> timer_id t) (timers s),
              clock := max (clock s) (due t)\<rparr>"
  have "pendingWeight ?s + weight (cb t) \<le> pendingWeight s"
    using weight_filter_le [OF earliest_mem [OF assms]] by (simp add: pendingWeight_def)
  moreover have "pendingWeight (fire t s) < pendingWeight ?s + weight (cb t)"
    unfolding fire_def by (rule pendingWeight_runCallback)
  ultimately show ?thesis by linarith
qed

termination advance
  by (relation "measure (\<lambda>(till, s). pendingWeight s)") (auto simp: pendingWeight_fire)

declare advance.simps [simp del]

subsection \<open>Easing\<close>




subsection \<open>Rounding to a double\<close>











subsection \<open>The timer queue\<close>

lemma earliest_None: "earliest ts = None \<longleftrightarrow> ts = []"
  by (induction ts) (auto split: option.splits)

lemma earliest_least: "earliest ts = Some t \<Longrightarrow> u \<in> set ts \<Longrightarrow> due t \<le> due u"
  by (induction ts arbitrary: t) (auto split: option.splits if_splits simp: earliest_None)

lemma remove_by_id:
  "distinct (map timer_id ts) \<Longrightarrow> t \<in> set ts \<Longrightarrow>
   filter (\<lambda>u. timer_id u \<noteq> timer_id t) ts = remove1 t ts"
proof (induction ts)
  case Nil
  then show ?case by simp
next
  case (Cons a ts)
  show ?case
  proof (cases "a = t")
    case True
    have "timer_id t \<notin> timer_id ` set ts" using Cons.prems True by simp
    then have "\<forall>u\<in>set ts. timer_id u \<noteq> timer_id t" by (metis imageI)
    then have "filter (\<lambda>u. timer_id u \<noteq> timer_id t) ts = ts" by (simp add: filter_id_conv)
    then show ?thesis using True by simp
  next
    case False
    then have "t \<in> set ts" using Cons.prems by auto
    moreover have "timer_id a \<noteq> timer_id t"
      using Cons.prems(1) \<open>t \<in> set ts\<close> by (metis distinct.simps(2) imageI list.simps(9) set_map)
    ultimately show ?thesis using Cons by auto
  qed
qed

lemma map_filter_remove1_head:
  "t \<in> set ts \<Longrightarrow> P t \<Longrightarrow> map f (filter P ts) = f t # q \<Longrightarrow> f t \<notin> set q \<Longrightarrow>
   map f (filter P (remove1 t ts)) = q"
proof (induction ts)
  case Nil
  then show ?case by simp
next
  case (Cons a ts)
  show ?case
  proof (cases "a = t")
    case True
    then show ?thesis using Cons.prems by simp
  next
    case False
    then have mem: "t \<in> set ts" using Cons.prems by auto
    show ?thesis
    proof (cases "P a")
      case True
      then have "map f (filter P ts) = q" using Cons.prems by simp
      moreover have "f t \<in> set (map f (filter P ts))" using mem Cons.prems(2) by auto
      ultimately show ?thesis using Cons.prems(4) by simp
    next
      case False
      then show ?thesis using Cons \<open>a \<noteq> t\<close> mem by simp
    qed
  qed
qed

lemma map_filter_remove1_other:
  "\<not> P t \<Longrightarrow> map f (filter P (remove1 t ts)) = map f (filter P ts)"
  by (induction ts) auto

lemma schedule_head:
  assumes "k \<le> 8" "p \<in> set (drop k schedule)" "\<forall>q\<in>set (drop k schedule). fst p \<le> fst q"
  shows "k < 8 \<and> drop k schedule = p # drop (Suc k) schedule \<and> p \<notin> set (drop (Suc k) schedule)"
proof -
  have "k \<in> {0, 1, 2, 3, 4, 5, 6, 7, 8}" using assms(1) by auto
  then show ?thesis using assms(2,3)
    by (elim insertE emptyE) (auto simp: schedule_def)
qed


lemma advance_preserves:
  assumes fireP: "\<And>s t. P s \<Longrightarrow> earliest (timers s) = Some t \<Longrightarrow> due t \<le> till \<Longrightarrow> P (fire t s)"
    and stopP: "\<And>s. P s \<Longrightarrow> \<forall>u\<in>set (timers s). till < due u \<Longrightarrow> P (s\<lparr>clock := max (clock s) till\<rparr>)"
    and init: "P s"
  shows "P (advance till s)"
  using init fireP stopP
proof (induction till s rule: advance.induct)
  case (1 till s)
  note init = "1.prems"(1) and fireP = "1.prems"(2) and stopP = "1.prems"(3)
  show ?case
  proof (cases "earliest (timers s)")
    case None
    then have "timers s = []" by (simp add: earliest_None)
    then have "P (s\<lparr>clock := max (clock s) till\<rparr>)" using stopP [OF init] by simp
    then show ?thesis using None by (simp add: advance.simps)
  next
    case (Some t)
    show ?thesis
    proof (cases "due t \<le> till")
      case True
      have "P (fire t s)" using fireP [OF init Some True] .
      then have "P (advance till (fire t s))"
        using "1.IH" [OF Some True] fireP stopP by blast
      then show ?thesis using Some True by (simp add: advance.simps)
    next
      case False
      then have "\<forall>u\<in>set (timers s). till < due u"
        using earliest_least [OF Some] by fastforce
      then have "P (s\<lparr>clock := max (clock s) till\<rparr>)" using stopP [OF init] by simp
      then show ?thesis using Some False by (simp add: advance.simps)
    qed
  qed
qed

lemma fire_eq:
  assumes "distinct (map timer_id (timers s))" "\<forall>u\<in>set (timers s). clock s \<le> due u"
    "earliest (timers s) = Some t"
  shows "fire t s = runCallback (cb t) (s\<lparr>timers := remove1 t (timers s), clock := due t\<rparr>)"
proof -
  have mem: "t \<in> set (timers s)" using assms(3) by (rule earliest_mem)
  then have "max (clock s) (due t) = due t" using assms(2) by (simp add: max_def)
  then show ?thesis using remove_by_id [OF assms(1) mem] by (simp add: fire_def)
qed

lemma wellFormed_mount: "wellFormed (mount rnd w h ctx)"
  by (simp add: wellFormed_def idsOK_def logOK_def stage_def mount_def inputEffect_def
      sequencerEffect_def initial_def setTimeout_def pendingSeq_def phaseOrder_def)

subsection \<open>Well-formedness is kept by every timer\<close>

lemma singleton_by_id:
  assumes "distinct (map f ts)" "\<forall>u\<in>set ts. f u = c" "t \<in> set ts"
  shows "ts = [t]"
proof (cases ts)
  case Nil
  then show ?thesis using assms(3) by simp
next
  case (Cons a rest)
  have "rest = []"
  proof (cases rest)
    case Nil
    then show ?thesis .
  next
    case (Cons b rest')
    then have "f a = c" "f b = c" using assms(2) \<open>ts = a # rest\<close> by auto
    then show ?thesis using assms(1) \<open>ts = a # rest\<close> Cons by simp
  qed
  then show ?thesis using assms(3) Cons by simp
qed

lemma idsOK_removed:
  assumes "idsOK s" "earliest (timers s) = Some t"
  shows "idsOK (s\<lparr>timers := remove1 t (timers s), clock := due t\<rparr>)"
proof -
  have "distinct (map timer_id (remove1 t (timers s)))"
    using assms(1) remove_by_id [OF _ earliest_mem [OF assms(2)]]
      distinct_map_filter [of timer_id "timers s" "\<lambda>u. timer_id u \<noteq> timer_id t"]
    by (simp add: idsOK_def)
  moreover have "\<forall>u\<in>set (remove1 t (timers s)). due t \<le> due u"
    using earliest_least [OF assms(2)] set_remove1_subset [of t "timers s"] by blast
  moreover have "\<forall>u\<in>set (remove1 t (timers s)). timer_id u < nextTimerId s"
    using assms(1) set_remove1_subset [of t "timers s"] by (auto simp: idsOK_def)
  ultimately show ?thesis using assms(1) by (simp add: idsOK_def)
qed

lemma idsOK_setTimeout: "idsOK s \<Longrightarrow> idsOK (setTimeout c d s)"
  by (fastforce simp: idsOK_def setTimeout_def)

lemma setTimeout_fields [simp]:
  "clock (setTimeout c d s) = clock s" "phase (setTimeout c d s) = phase s"
  "phaseLog (setTimeout c d s) = phaseLog s" "mounted (setTimeout c d s) = mounted s"
  "inputValue (setTimeout c d s) = inputValue s"
  "silenceTimerId (setTimeout c d s) = silenceTimerId s"
  "targetSpeedRef (setTimeout c d s) = targetSpeedRef s"
  by (simp_all add: setTimeout_def)

lemma idsOK_setPhase: "idsOK s \<Longrightarrow> idsOK (setPhase p s)"
  by (simp add: idsOK_def setPhase_def)

lemma idsOK_commit: "idsOK s \<Longrightarrow> idsOK (commit p s)"
  by (simp add: idsOK_def)

lemma idsOK_silenceBody: "idsOK s \<Longrightarrow> idsOK (silenceBody s)"
  by (simp add: silenceBody_def breathSequence_def idsOK_setTimeout idsOK_setPhase)

lemma idsOK_runCallback: "idsOK s \<Longrightarrow> idsOK (runCallback c s)"
proof (cases c)
  case SilenceTimer
  assume "idsOK s"
  then show ?thesis using SilenceTimer by (simp add: idsOK_commit idsOK_silenceBody)
next
  case AwakeningTimer
  assume "idsOK s"
  then have "idsOK ((setPhase awakening s)\<lparr>targetSpeedRef := 0.002\<rparr>)"
    by (simp add: idsOK_def setPhase_def)
  then show ?thesis using AwakeningTimer by (simp add: idsOK_commit)
next
  case ReadyTimer
  assume "idsOK s"
  then show ?thesis using ReadyTimer by (simp add: idsOK_commit idsOK_setPhase)
qed (simp_all add: idsOK_def setBreathOpacity_def setIsVisible_def)


lemma pendingSeq_silenceBody:
  "pendingSeq (silenceBody s) = pendingSeq s @
     [(clock s, BreathStep 0), (clock s + 800, BreathStep 0.3), (clock s + 1600, BreathStep 0.1),
      (clock s + 2400, BreathStep 0.25), (clock s + 3200, BreathStep 0),
      (clock s + 3500, AwakeningTimer), (clock s + 6500, ReadyTimer),
      (clock s + 9000, VisibleTimer)]"
  by (simp add: pendingSeq_def timers_silenceBody)

lemma pendingSeq_commit [simp]: "pendingSeq (commit p s) = pendingSeq s"
  by (simp add: pendingSeq_def)

lemma scheduled_next:
  assumes "logOK s" "k < 8" "pendingSeq s = drop (Suc k) schedule"
    "2 \<le> length (phaseLog s)" "length (phaseLog s) \<le> phasesBy k"
    "mounted s \<longrightarrow> length (phaseLog s) = phasesBy k"
    "\<forall>t\<in>set (timers s). timer_id t \<noteq> silenceTimerId s"
    "c = snd (schedule ! k)"
  shows "logOK (runCallback c s) \<and> scheduled (Suc k) (runCallback c s)"
proof -
  have "k \<in> {0, 1, 2, 3, 4, 5, 6, 7}" using assms(2) by auto
  then show ?thesis
    using assms
    by (elim insertE emptyE)
      (auto simp: schedule_def scheduled_def logOK_def phasesBy_def phaseOrder_def
        setBreathOpacity_def setIsVisible_def setPhase_def pendingSeq_def)
qed


lemma logOK_cong:
  "logOK s \<Longrightarrow> phaseLog s' = phaseLog s \<Longrightarrow> phase s' = phase s \<Longrightarrow>
   inputValue s' = inputValue s \<Longrightarrow> logOK s'"
  unfolding logOK_def by metis

lemma stage_cong:
  assumes "stage s" "pendingSeq s' = pendingSeq s" "set (timers s') \<subseteq> set (timers s)"
    "mounted s' = mounted s" "phaseLog s' = phaseLog s" "silenceTimerId s' = silenceTimerId s"
  shows "stage s'"
proof -
  from assms(1) consider
      (waiting) "pendingSeq s = [(2500, SilenceTimer)]" "mounted s" "length (phaseLog s) = 1"
        "\<forall>u\<in>set (timers s). timer_id u = silenceTimerId s"
    | (torn) "pendingSeq s = []" "\<not> mounted s" "length (phaseLog s) = 1"
    | (running) k where "scheduled k s"
    by (auto simp: stage_def)
  then show ?thesis
  proof cases
    case waiting
    then have "pendingSeq s' = [(2500, SilenceTimer)] \<and> mounted s' \<and> length (phaseLog s') = 1 \<and>
        (\<forall>u\<in>set (timers s'). timer_id u = silenceTimerId s')"
      using assms(2-6) by auto
    then show ?thesis unfolding stage_def by blast
  next
    case torn
    then have "pendingSeq s' = [] \<and> \<not> mounted s' \<and> length (phaseLog s') = 1"
      using assms(2-6) by auto
    then show ?thesis unfolding stage_def by blast
  next
    case running
    then have "scheduled k s'"
      using assms(2-6) unfolding scheduled_def by auto
    then show ?thesis unfolding stage_def by blast
  qed
qed

lemma idsOK_cong:
  assumes "idsOK s" "distinct (map timer_id (timers s'))" "set (timers s') \<subseteq> set (timers s)"
    "nextTimerId s \<le> nextTimerId s'" "silenceTimerId s' = silenceTimerId s"
    "\<forall>u\<in>set (timers s'). clock s' \<le> due u"
  shows "idsOK s'"
  using assms unfolding idsOK_def by (auto simp: subset_iff intro: less_le_trans)

lemma wellFormed_fire:
  assumes wellFormed: "wellFormed s" and e: "earliest (timers s) = Some t"
  shows "wellFormed (fire t s)"
proof -
  let ?s1 = "s\<lparr>timers := remove1 t (timers s), clock := due t\<rparr>"
  have ids: "idsOK s" and log: "logOK s" and st: "stage s" using wellFormed by (simp_all add: wellFormed_def)
  have mem: "t \<in> set (timers s)" using e by (rule earliest_mem)
  have sub: "set (remove1 t (timers s)) \<subseteq> set (timers s)" by (rule set_remove1_subset)
  have eq: "fire t s = runCallback (cb t) ?s1"
    using fire_eq [OF _ _ e] ids by (simp add: idsOK_def)
  have ids1: "idsOK ?s1" using ids e by (rule idsOK_removed)
  have ids2: "idsOK (runCallback (cb t) ?s1)" using ids1 by (rule idsOK_runCallback)
  have log1: "logOK ?s1" by (rule logOK_cong [OF log]) simp_all
  have "logOK (runCallback (cb t) ?s1) \<and> stage (runCallback (cb t) ?s1)"
  proof (cases "cb t = BurstTimer")
    case True
    have ps: "pendingSeq ?s1 = pendingSeq s"
      using True by (simp add: pendingSeq_def map_filter_remove1_other)
    have "stage (?s1\<lparr>targetSpeedRef := 0.006\<rparr>)"
      using ps sub by (intro stage_cong [OF st]) (simp_all add: pendingSeq_def)
    moreover have "logOK (?s1\<lparr>targetSpeedRef := 0.006\<rparr>)"
      by (rule logOK_cong [OF log]) simp_all
    ultimately show ?thesis using True by simp
  next
    case False
    then have pmem: "(due t, cb t) \<in> set (pendingSeq s)"
      using mem by (auto simp: pendingSeq_def)
    from st consider
        (waiting) "pendingSeq s = [(2500, SilenceTimer)]" "mounted s" "length (phaseLog s) = 1"
          "\<forall>u\<in>set (timers s). timer_id u = silenceTimerId s"
      | (torn) "pendingSeq s = []"
      | (running) k where "scheduled k s"
      by (auto simp: stage_def)
    then show ?thesis
    proof cases
      case waiting
      have one: "timers s = [t]"
        using singleton_by_id [OF _ waiting(4) mem] ids by (simp add: idsOK_def)
      have t: "due t = 2500" "cb t = SilenceTimer" using pmem waiting(1) by auto
      have "phaseLog s = [silence]" "phase s = silence"
        using log waiting(3) by (auto simp: logOK_def phaseOrder_def)
      then have "logOK (runCallback (cb t) ?s1) \<and> scheduled 0 (runCallback (cb t) ?s1)"
        using one t waiting(2) log ids
        by (simp add: logOK_def scheduled_def pendingSeq_silenceBody timers_silenceBody
            setPhase_def schedule_def phasesBy_def phaseOrder_def pendingSeq_def idsOK_def)
      then show ?thesis unfolding stage_def by blast
    next
      case torn
      then show ?thesis using pmem by simp
    next
      case running
      have k: "k \<le> 8" and ps: "pendingSeq s = drop k schedule" using running by (simp_all add: scheduled_def)
      have least: "\<forall>q\<in>set (drop k schedule). fst (due t, cb t) \<le> fst q"
        using earliest_least [OF e] ps [symmetric] by (auto simp: pendingSeq_def)
      have hd: "k < 8" "drop k schedule = (due t, cb t) # drop (Suc k) schedule"
        "(due t, cb t) \<notin> set (drop (Suc k) schedule)"
        using schedule_head [OF k _ least] pmem ps by simp_all
      have ps1: "pendingSeq ?s1 = drop (Suc k) schedule"
        using map_filter_remove1_head [of t "timers s" "\<lambda>u. cb u \<noteq> BurstTimer"
            "\<lambda>u. (due u, cb u)" "drop (Suc k) schedule"] mem False hd ps
        by (simp add: pendingSeq_def)
      have c: "cb t = snd (schedule ! k)"
        using hd(1,2) by (metis Cons_nth_drop_Suc length_Cons list.inject list.size(3) nth_Cons_0 nth_drop snd_conv add.right_neutral drop_all leI list.distinct(1))
      have "logOK (runCallback (cb t) ?s1) \<and> scheduled (Suc k) (runCallback (cb t) ?s1)"
        using running sub by (intro scheduled_next [OF log1 hd(1) ps1 _ _ _ _ c])
          (auto simp: scheduled_def)
      then show ?thesis by (auto simp: stage_def)
    qed
  qed
  then show ?thesis using ids2 eq by (simp add: wellFormed_def)
qed

lemma wellFormed_stop:
  assumes "wellFormed s" "\<forall>u\<in>set (timers s). till < due u"
  shows "wellFormed (s\<lparr>clock := max (clock s) till\<rparr>)"
proof -
  let ?s' = "s\<lparr>clock := max (clock s) till\<rparr>"
  have "idsOK s" "logOK s" "stage s" using assms(1) by (simp_all add: wellFormed_def)
  have "idsOK ?s'"
    using \<open>idsOK s\<close> assms(2) by (auto simp: idsOK_def max_def)
  moreover have "logOK ?s'" by (rule logOK_cong [OF \<open>logOK s\<close>]) simp_all
  moreover have "stage ?s'" by (rule stage_cong [OF \<open>stage s\<close>]) (simp_all add: pendingSeq_def)
  ultimately show ?thesis by (simp add: wellFormed_def)
qed

lemma wellFormed_advance: "wellFormed s \<Longrightarrow> wellFormed (advance till s)"
  by (rule advance_preserves [where P = wellFormed]) (auto intro: wellFormed_fire wellFormed_stop)

subsection \<open>Well-formedness is kept by every event\<close>

lemma wellFormed_same:
  assumes "wellFormed s" "timers s' = timers s" "nextTimerId s' = nextTimerId s"
    "silenceTimerId s' = silenceTimerId s" "clock s' = clock s" "mounted s' = mounted s"
    "phaseLog s' = phaseLog s" "phase s' = phase s" "inputValue s' = inputValue s"
  shows "wellFormed s'"
proof -
  have ids: "idsOK s" and log: "logOK s" and st: "stage s" using assms(1) by (simp_all add: wellFormed_def)
  have "idsOK s'" using ids assms(2-5) by (simp add: idsOK_def)
  moreover have "logOK s'" by (rule logOK_cong [OF log]) (simp_all add: assms)
  moreover have "stage s'" by (rule stage_cong [OF st]) (simp_all add: assms pendingSeq_def)
  ultimately show ?thesis by (simp add: wellFormed_def)
qed

lemma wellFormed_animate: "wellFormed s \<Longrightarrow> wellFormed (animate s)"
  by (erule wellFormed_same) simp_all

lemma wellFormed_resize:
  assumes "wellFormed s"
  shows "wellFormed (step s (Resize w h))"
proof -
  have "wellFormed (s\<lparr>innerWidth := w, innerHeight := h\<rparr>)"
    by (rule wellFormed_same [OF assms]) simp_all
  moreover have "wellFormed (setCanvasSize (s\<lparr>innerWidth := w, innerHeight := h\<rparr>))"
    by (rule wellFormed_same [OF assms]) (simp_all add: setCanvasSize_def)
  ultimately show ?thesis by (simp add: Let_def)
qed

lemma wellFormed_input:
  assumes "wellFormed s"
  shows "wellFormed (step s (Input v))"
proof (cases "mounted s \<and> phase s = ready \<and> v \<noteq> inputValue s")
  case True
  let ?s' = "inputEffect (s\<lparr>inputValue := v\<rparr>)"
  have ids: "idsOK s" and st: "stage s" using assms by (simp_all add: wellFormed_def)
  have "idsOK ?s'"
    using ids by (simp add: idsOK_def inputEffect_def)
  moreover have "stage ?s'"
    by (rule stage_cong [OF st]) (simp_all add: pendingSeq_def inputEffect_def)
  moreover have "logOK ?s'"
    using assms True unfolding wellFormed_def logOK_def by (simp add: inputEffect_def)
  ultimately show ?thesis using True by (simp add: wellFormed_def)
next
  case False
  then show ?thesis using assms by auto
qed

lemma wellFormed_click:
  assumes "wellFormed s"
  shows "wellFormed (step s Click)"
proof (cases "mounted s \<and> phase s = ready \<and> \<not> disabled s")
  case True
  let ?s0 = "(setIsSimulating True s)\<lparr>targetSpeedRef := 0.018\<rparr>"
  have ids: "idsOK s" and log: "logOK s" and st: "stage s" using assms by (simp_all add: wellFormed_def)
  have "idsOK ?s0"
    by (rule idsOK_cong [OF ids]) (use ids in \<open>simp_all add: idsOK_def setIsSimulating_def\<close>)
  then have a: "idsOK (handleSimulationStart s)"
    unfolding handleSimulationStart_def by (rule idsOK_setTimeout)
  have b: "logOK (handleSimulationStart s)"
    by (rule logOK_cong [OF log]) (simp_all add: handleSimulationStart_def setIsSimulating_def)
  have len: "length (phaseLog s) = 4"
    using log True by (auto simp: logOK_def phaseOrder_def)
  then obtain k where k: "scheduled k s" using st True by (auto simp: stage_def)
  have "scheduled k (handleSimulationStart s)"
    using k ids True unfolding scheduled_def
    by (auto simp: handleSimulationStart_def setTimeout_def setIsSimulating_def pendingSeq_def
        idsOK_def)
  then have "stage (handleSimulationStart s)" unfolding stage_def by blast
  then show ?thesis using a b True by (simp add: wellFormed_def)
next
  case False
  then show ?thesis using assms by auto
qed

lemma wellFormed_unmount:
  assumes "wellFormed s"
  shows "wellFormed (unmount s)"
proof (cases "mounted s")
  case False
  then show ?thesis using assms by (simp add: unmount_def)
next
  case True
  let ?s' = "(rendererCleanup (sequencerCleanup s))\<lparr>mounted := False\<rparr>"
  have ids: "idsOK s" and log: "logOK s" and st: "stage s" using assms by (simp_all add: wellFormed_def)
  have tm: "timers ?s' = filter (\<lambda>t. timer_id t \<noteq> silenceTimerId s) (timers s)"
    by (simp add: rendererCleanup_def sequencerCleanup_def clearTimeout_def)
  have a: "idsOK ?s'"
    by (rule idsOK_cong [OF ids])
      (use ids in \<open>auto simp: idsOK_def tm distinct_map_filter rendererCleanup_def
          sequencerCleanup_def clearTimeout_def\<close>)
  have b: "logOK ?s'"
    by (rule logOK_cong [OF log])
      (simp_all add: rendererCleanup_def sequencerCleanup_def clearTimeout_def)
  from st True consider
      (waiting) "length (phaseLog s) = 1" "\<forall>u\<in>set (timers s). timer_id u = silenceTimerId s"
    | (running) k where "scheduled k s"
    by (auto simp: stage_def)
  then have "stage ?s'"
  proof cases
    case waiting
    then have "timers ?s' = []" unfolding tm by (simp add: filter_empty_conv)
    then have "pendingSeq ?s' = [] \<and> \<not> mounted ?s' \<and> length (phaseLog ?s') = 1"
      using waiting(1)
      by (simp add: pendingSeq_def rendererCleanup_def sequencerCleanup_def clearTimeout_def)
    then show ?thesis unfolding stage_def by blast
  next
    case running
    then have "timers ?s' = timers s" unfolding tm by (simp add: scheduled_def filter_id_conv)
    then have "scheduled k ?s'"
      using running unfolding scheduled_def
      by (simp add: pendingSeq_def rendererCleanup_def sequencerCleanup_def clearTimeout_def)
    then show ?thesis unfolding stage_def by blast
  qed
  then show ?thesis using a b True by (simp add: wellFormed_def unmount_def)
qed

lemma wellFormed_step: "wellFormed s \<Longrightarrow> wellFormed (step s e)"
proof (cases e)
  case (Wait d)
  assume "wellFormed s"
  then show ?thesis using Wait by (simp add: wellFormed_advance)
next
  case Frame
  assume "wellFormed s"
  then show ?thesis using Frame by (simp add: wellFormed_animate)
next
  case (Resize w h)
  assume "wellFormed s"
  then show ?thesis unfolding Resize by (rule wellFormed_resize)
next
  case (Input v)
  assume "wellFormed s"
  then show ?thesis unfolding Input by (rule wellFormed_input)
next
  case Click
  assume "wellFormed s"
  then show ?thesis unfolding Click by (rule wellFormed_click)
next
  case Unmount
  assume "wellFormed s"
  then show ?thesis using Unmount by (simp add: wellFormed_unmount)
qed

lemma run_Nil [simp]: "run s [] = s"
  by (simp add: run_def)

lemma run_Cons [simp]: "run s (e # es) = run (step s e) es"
  by (simp add: run_def)

lemma run_append: "run s (es @ es') = run (run s es) es'"
  by (simp add: run_def)

lemma wellFormed_run: "wellFormed s \<Longrightarrow> wellFormed (run s es)"
  by (induction es arbitrary: s) (simp_all add: wellFormed_step)

lemma wellFormed_reachable: "wellFormed (run (mount rnd w h ctx) es)"
  by (rule wellFormed_run [OF wellFormed_mount])

text \<open>
  Claim C5. In every run of the component (any mix of waiting, frames, resizes, edits,
  button presses and teardown after mount) the history of phase values is an initial
  piece of silence, breath, awakening, ready, and the current phase is its last entry:
  the phase only moves forward and no phase comes twice.
\<close>

theorem phase_never_regresses:
  "prefix (phaseLog (run (mount rnd w h ctx) es)) [silence, breath, awakening, ready]
   \<and> phaseLog (run (mount rnd w h ctx) es) \<noteq> []
   \<and> phase (run (mount rnd w h ctx) es) = last (phaseLog (run (mount rnd w h ctx) es))
   \<and> distinct (phaseLog (run (mount rnd w h ctx) es))"
proof -
  let ?s = "run (mount rnd w h ctx) es"
  have "logOK ?s" using wellFormed_reachable [of rnd w h ctx es] by (simp add: wellFormed_def)
  then have m: "phaseLog ?s \<in> {[silence], [silence, breath], [silence, breath, awakening],
      [silence, breath, awakening, ready]}" and l: "phase ?s = last (phaseLog ?s)"
    by (simp_all add: logOK_def phaseOrder_def)
  from m have "prefix (phaseLog ?s) [silence, breath, awakening, ready]
      \<and> phaseLog ?s \<noteq> [] \<and> distinct (phaseLog ?s)"
    by (elim insertE emptyE) simp_all
  then show ?thesis using l by simp
qed

subsection \<open>Evaluating a run\<close>

lemmas eval_defs = mount_def initial_def sequencerEffect_def inputEffect_def setTimeout_def
  rendererEffect_def fire_def setPhase_def setBreathOpacity_def setIsVisible_def
  setIsSimulating_def handleSimulationStart_def timers_silenceBody unmount_def
  sequencerCleanup_def rendererCleanup_def clearTimeout_def

subsection \<open>The input coupling\<close>

lemma pending_in_schedule:
  assumes "wellFormed s" "t \<in> set (timers s)" "cb t \<noteq> BurstTimer" "cb t \<noteq> SilenceTimer"
  obtains k where "scheduled k s" "(due t, cb t) \<in> set (drop k schedule)"
proof -
  have p: "(due t, cb t) \<in> set (pendingSeq s)" using assms(2,3) by (auto simp: pendingSeq_def)
  have "stage s" using assms(1) by (simp add: wellFormed_def)
  then consider "pendingSeq s = [(2500, SilenceTimer)]" | "pendingSeq s = []"
    | k where "scheduled k s"
    by (auto simp: stage_def)
  then show ?thesis
  proof cases
    case 1
    then show ?thesis using p assms(4) by simp
  next
    case 2
    then show ?thesis using p by simp
  next
    case 3
    then have "pendingSeq s = drop k schedule" by (simp add: scheduled_def)
    then have "(due t, cb t) \<in> set (drop k schedule)" using p by simp
    then show ?thesis using that 3 by blast
  qed
qed

lemma awakening_pending_no_text:
  assumes "wellFormed s" "t \<in> set (timers s)" "cb t = AwakeningTimer"
  shows "inputValue s = []"
proof -
  obtain k where k: "scheduled k s" "(due t, cb t) \<in> set (drop k schedule)"
    using pending_in_schedule [OF assms(1,2)] assms(3) by auto
  have "k \<in> {0, 1, 2, 3, 4, 5, 6, 7, 8}" using k(1) by (auto simp: scheduled_def)
  then have "k \<le> 5" using k(2) assms(3) by (elim insertE emptyE) (auto simp: schedule_def)
  then have "length (phaseLog s) \<le> 2" using k(1) by (simp add: scheduled_def phasesBy_def)
  moreover have "logOK s" using assms(1) by (simp add: wellFormed_def)
  ultimately show ?thesis by (auto simp: logOK_def phaseOrder_def)
qed


lemma coupled_fire:
  assumes "wellFormed s \<and> coupled s" "earliest (timers s) = Some t"
  shows "wellFormed (fire t s) \<and> coupled (fire t s)"
proof -
  have wellFormed: "wellFormed s" and c: "coupled s" using assms(1) by simp_all
  have mem: "t \<in> set (timers s)" using assms(2) by (rule earliest_mem)
  have "coupled (fire t s)"
  proof (cases "cb t")
    case SilenceTimer
    then show ?thesis using c by (auto simp: coupled_def fire_def timers_silenceBody)
  next
    case AwakeningTimer
    then have "inputValue s = []" using awakening_pending_no_text [OF wellFormed mem] by simp
    then show ?thesis using c AwakeningTimer by (auto simp: coupled_def fire_def setPhase_def)
  next
    case BurstTimer
    then show ?thesis using c mem by (auto simp: coupled_def)
  next
    case (BreathStep v)
    then show ?thesis using c by (auto simp: coupled_def fire_def setBreathOpacity_def)
  next
    case ReadyTimer
    then show ?thesis using c by (auto simp: coupled_def fire_def setPhase_def)
  next
    case VisibleTimer
    then show ?thesis using c by (auto simp: coupled_def fire_def setIsVisible_def)
  qed
  then show ?thesis using wellFormed_fire [OF wellFormed assms(2)] by simp
qed

lemma coupled_advance:
  assumes "wellFormed s \<and> coupled s"
  shows "wellFormed (advance till s) \<and> coupled (advance till s)"
proof (rule advance_preserves [where P = "\<lambda>s. wellFormed s \<and> coupled s"])
  show "wellFormed s \<and> coupled s" by (rule assms)
next
  fix s t
  assume "wellFormed s \<and> coupled s" "earliest (timers s) = Some t"
  then show "wellFormed (fire t s) \<and> coupled (fire t s)" by (rule coupled_fire)
next
  fix s :: app
  assume "wellFormed s \<and> coupled s" "\<forall>u\<in>set (timers s). till < due u"
  then show "wellFormed (s\<lparr>clock := max (clock s) till\<rparr>) \<and> coupled (s\<lparr>clock := max (clock s) till\<rparr>)"
    by (simp add: wellFormed_stop coupled_def)
qed

lemma coupled_step:
  assumes "wellFormed s \<and> coupled s" "e \<noteq> Click"
  shows "wellFormed (step s e) \<and> coupled (step s e)"
proof -
  have "coupled (step s e)"
  proof (cases e)
    case (Wait d)
    then show ?thesis using coupled_advance [OF assms(1)] by simp
  next
    case Click
    then show ?thesis using assms(2) by simp
  qed (use assms(1) in \<open>auto simp: coupled_def Let_def setCanvasSize_def inputEffect_def
        unmount_def rendererCleanup_def sequencerCleanup_def clearTimeout_def\<close>)
  then show ?thesis using assms(1) by (simp add: wellFormed_step)
qed

lemma coupled_run:
  "wellFormed s \<and> coupled s \<Longrightarrow> Click \<notin> set es \<Longrightarrow> wellFormed (run s es) \<and> coupled (run s es)"
proof (induction es arbitrary: s)
  case Nil
  then show ?case by simp
next
  case (Cons e es)
  then have "wellFormed (step s e) \<and> coupled (step s e)" by (intro coupled_step) auto
  then show ?case using Cons by simp
qed

lemma coupled_mount: "coupled (mount rnd w h ctx)"
  by (simp add: coupled_def eval_defs)

text \<open>
  Claim C6, as the code has it. Take any state the component can reach in which the
  target speed is the one the text decides (0.002 for the empty text, 0.003 otherwise)
  and no burst timer is pending, and let any events follow except a press of the button.
  Then after every event the target is again exactly the one the text decides. So edits
  from empty to non-empty to empty take the target from 0.002 to 0.003 and back to 0.002
  with no other value in between. In the ready phase an edit does replace the text, and
  in any state an edit that changes the text writes one of these two values.
\<close>

theorem input_coupling_roundtrip:
  assumes "s = run (mount rnd w h ctx) es0"
    and "targetSpeedRef s = (if inputValue s = [] then 0.002 else 0.003)"
    and "\<forall>t\<in>set (timers s). cb t \<noteq> BurstTimer"
    and "Click \<notin> set es"
  shows "targetSpeedRef (run s es) = (if inputValue (run s es) = [] then 0.002 else 0.003)
         \<and> (0.002 :: real) < 0.003
         \<and> (mounted (run s es) \<and> phase (run s es) = ready
              \<longrightarrow> inputValue (step (run s es) (Input v)) = v)
         \<and> (mounted s' \<and> phase s' = ready \<and> v \<noteq> inputValue s'
              \<longrightarrow> targetSpeedRef (step s' (Input v)) = (if v = [] then 0.002 else 0.003))"
proof -
  have "wellFormed s" unfolding assms(1) by (rule wellFormed_reachable)
  moreover have "coupled s" using assms(2,3) by (simp add: coupled_def)
  ultimately have "coupled (run s es)" using coupled_run [OF _ assms(4), of s] by simp
  then show ?thesis by (auto simp: coupled_def inputEffect_def)
qed

theorem input_coupling_roundtrip_witness:
  "targetSpeedRef (run (mount (\<lambda>n. 1 / 2) 800 600 True)
       [Wait 9000, Input [0x61], Click, Wait 3500, Input []]) = 0.002
   \<and> inputValue (run (mount (\<lambda>n. 1 / 2) 800 600 True)
       [Wait 9000, Input [0x61], Click, Wait 3500, Input []]) = []
   \<and> timers (run (mount (\<lambda>n. 1 / 2) 800 600 True)
       [Wait 9000, Input [0x61], Click, Wait 3500, Input []]) = []
   \<and> Click \<notin> set [Input [0x62]]
   \<and> Click \<notin> set [Input [0x62], Wait 5000, Input []]
   \<and> inputValue (run (run (mount (\<lambda>n. 1 / 2) 800 600 True)
       [Wait 9000, Input [0x61], Click, Wait 3500, Input []]) [Input [0x62]]) = [0x62]
   \<and> targetSpeedRef (run (run (mount (\<lambda>n. 1 / 2) 800 600 True)
       [Wait 9000, Input [0x61], Click, Wait 3500, Input []]) [Input [0x62]]) = 0.003
   \<and> inputValue (run (run (mount (\<lambda>n. 1 / 2) 800 600 True)
       [Wait 9000, Input [0x61], Click, Wait 3500, Input []])
         [Input [0x62], Wait 5000, Input []]) = []
   \<and> targetSpeedRef (run (run (mount (\<lambda>n. 1 / 2) 800 600 True)
       [Wait 9000, Input [0x61], Click, Wait 3500, Input []])
         [Input [0x62], Wait 5000, Input []]) = 0.002"
proof -
  let ?s = "run (mount (\<lambda>n. 1 / 2) 800 600 True)
       [Wait 9000, Input [0x61], Click, Wait 3500, Input []]"
  have tg: "targetSpeedRef ?s = 0.002" and iv: "inputValue ?s = []" and tm: "timers ?s = []"
    by (simp_all add: advance.simps eval_defs disabled_def trim_def isWhiteSpace_def)
  have h2: "targetSpeedRef ?s = (if inputValue ?s = [] then 0.002 else 0.003)"
    unfolding tg iv by simp
  have h3: "\<forall>t\<in>set (timers ?s). cb t \<noteq> BurstTimer" unfolding tm by simp
  have a: "Click \<notin> set [Input [0x62]]"
    and b: "Click \<notin> set [Input [0x62], Wait 5000, Input []]" by simp_all
  have i1: "inputValue (run ?s [Input [0x62]]) = [0x62]"
    by (simp add: advance.simps eval_defs disabled_def trim_def isWhiteSpace_def)
  have i2: "inputValue (run ?s [Input [0x62], Wait 5000, Input []]) = []"
    by (simp add: advance.simps eval_defs disabled_def trim_def isWhiteSpace_def)
  have t1: "targetSpeedRef (run ?s [Input [0x62]]) = 0.003"
    using conjunct1 [OF input_coupling_roundtrip [OF refl h2 h3 a]] unfolding i1
    by (simp del: run_Cons run_Nil)
  have t2: "targetSpeedRef (run ?s [Input [0x62], Wait 5000, Input []]) = 0.002"
    using conjunct1 [OF input_coupling_roundtrip [OF refl h2 h3 b]] unfolding i2
    by (simp del: run_Cons run_Nil)
  show ?thesis using tg iv tm a b i1 i2 t1 t2 by blast
qed

text \<open>
  Claim C6 as stated fails while a burst timer is pending. Ready at 9000 ms, the letter
  a is typed, the button pressed and the text cleared: the text is empty and the target
  idle. Typing b gives 0.003; 3500 ms later, the text still b, the burst timer has
  written 0.006, a third value; clearing the text gives 0.002.
\<close>

theorem pending_burst_counterexample:
  "inputValue (run (mount (\<lambda>n. 1 / 2) 800 600 True)
       [Wait 9000, Input [0x61], Click, Input []]) = []
   \<and> targetSpeedRef (run (mount (\<lambda>n. 1 / 2) 800 600 True)
       [Wait 9000, Input [0x61], Click, Input []]) = 0.002
   \<and> targetSpeedRef (run (mount (\<lambda>n. 1 / 2) 800 600 True)
       [Wait 9000, Input [0x61], Click, Input [], Input [0x62]]) = 0.003
   \<and> inputValue (run (mount (\<lambda>n. 1 / 2) 800 600 True)
       [Wait 9000, Input [0x61], Click, Input [], Input [0x62], Wait 3500]) = [0x62]
   \<and> targetSpeedRef (run (mount (\<lambda>n. 1 / 2) 800 600 True)
       [Wait 9000, Input [0x61], Click, Input [], Input [0x62], Wait 3500]) = 0.006
   \<and> targetSpeedRef (run (mount (\<lambda>n. 1 / 2) 800 600 True)
       [Wait 9000, Input [0x61], Click, Input [], Input [0x62], Wait 3500, Input []]) = 0.002
   \<and> (0.006 :: real) \<noteq> 0.002 \<and> (0.006 :: real) \<noteq> 0.003"
  by (simp add: advance.simps eval_defs disabled_def trim_def isWhiteSpace_def)

text \<open>
  Claim C10. There is a run in which the sustained value outlives the text. The UI is
  ready at 11500 ms; the letter a is typed and the button pressed (target 0.018, a burst
  timer due at 15000 ms); 500 ms later the text is cleared (target back to the idle
  0.002, the timer still pending); when the clock reaches 15000 ms the timer fires and
  writes 0.006: the text is empty and the target is the sustained value, not the idle one.
\<close>

theorem burst_timer_outlives_text:
  "targetSpeedRef (run (mount rnd w h ctx) [Wait 11500, Input [0x61], Click]) = 0.018
   \<and> timers (run (mount rnd w h ctx) [Wait 11500, Input [0x61], Click])
       = [\<lparr>timer_id = 9, due = 15000, cb = BurstTimer\<rparr>]
   \<and> clock (run (mount rnd w h ctx) [Wait 11500, Input [0x61], Click, Wait 500]) = 12000
   \<and> inputValue (run (mount rnd w h ctx) [Wait 11500, Input [0x61], Click, Wait 500, Input []]) = []
   \<and> targetSpeedRef (run (mount rnd w h ctx) [Wait 11500, Input [0x61], Click, Wait 500, Input []])
       = 0.002
   \<and> timers (run (mount rnd w h ctx) [Wait 11500, Input [0x61], Click, Wait 500, Input []])
       = [\<lparr>timer_id = 9, due = 15000, cb = BurstTimer\<rparr>]
   \<and> clock (run (mount rnd w h ctx)
        [Wait 11500, Input [0x61], Click, Wait 500, Input [], Wait 3000]) = 15000
   \<and> inputValue (run (mount rnd w h ctx)
        [Wait 11500, Input [0x61], Click, Wait 500, Input [], Wait 3000]) = []
   \<and> targetSpeedRef (run (mount rnd w h ctx)
        [Wait 11500, Input [0x61], Click, Wait 500, Input [], Wait 3000]) = 0.006
   \<and> (0.006 :: real) \<noteq> 0.002"
  by (simp add: advance.simps eval_defs disabled_def trim_def isWhiteSpace_def)

subsection \<open>Trimming\<close>

lemma dropWhile_all: "(\<forall>x\<in>set (dropWhile P v). P x) \<longleftrightarrow> (\<forall>c\<in>set v. P c)"
  by (induction v) auto

lemma trim_empty_iff: "trim v = [] \<longleftrightarrow> (\<forall>c\<in>set v. isWhiteSpace c)"
  by (simp add: trim_def dropWhile_eq_Nil_conv dropWhile_all)

text \<open>
  Claim C4, as the code has it. The button is disabled exactly when the text consists of
  white space only (the empty text included), and a disabled button starts no burst. The
  speed coupling looks at the untrimmed length: after an edit in the ready phase the
  target is 0.002 for the empty text and 0.003 for any other text, white space or not.
\<close>

theorem trigger_trimmed_coupling_raw:
  assumes "mounted s" "phase s = ready" "v \<noteq> inputValue s"
  shows "(disabled (step s (Input v)) \<longleftrightarrow> (\<forall>c\<in>set v. isWhiteSpace c))
         \<and> (disabled (step s (Input v)) \<longrightarrow> step (step s (Input v)) Click = step s (Input v))
         \<and> targetSpeedRef (step s (Input v)) = (if v = [] then 0.002 else 0.003)"
  using assms by (simp add: disabled_def trim_empty_iff inputEffect_def)

theorem trigger_trimmed_coupling_raw_witness:
  "mounted (run (mount (\<lambda>n. 1 / 2) 800 600 True) [Wait 9000])
   \<and> phase (run (mount (\<lambda>n. 1 / 2) 800 600 True) [Wait 9000]) = ready
   \<and> [0x20, 0x61] \<noteq> inputValue (run (mount (\<lambda>n. 1 / 2) 800 600 True) [Wait 9000])
   \<and> \<not> disabled (step (run (mount (\<lambda>n. 1 / 2) 800 600 True) [Wait 9000]) (Input [0x20, 0x61]))
   \<and> targetSpeedRef (step (run (mount (\<lambda>n. 1 / 2) 800 600 True) [Wait 9000]) (Input [0x20, 0x61]))
       = 0.003"
proof -
  let ?s = "run (mount (\<lambda>n. 1 / 2) 800 600 True) [Wait 9000]"
  have a: "mounted ?s" and b: "phase ?s = ready" and c: "[0x20, 0x61] \<noteq> inputValue ?s"
    by (simp_all add: advance.simps eval_defs)
  show ?thesis
    using trigger_trimmed_coupling_raw [OF a b c] a b c by (simp add: isWhiteSpace_def)
qed

theorem whitespace_input_counterexample:
  "disabled (run (mount (\<lambda>n. 1 / 2) 800 600 True) [Wait 9000, Input [0x20]])
   \<and> targetSpeedRef (run (mount (\<lambda>n. 1 / 2) 800 600 True) [Wait 9000, Input [0x20]]) = 0.003
   \<and> targetSpeedRef (run (mount (\<lambda>n. 1 / 2) 800 600 True) [Wait 9000, Input [0x20]]) \<noteq> 0.002"
  by (simp add: advance.simps eval_defs disabled_def trim_def isWhiteSpace_def)

subsection \<open>The burst\<close>

lemma runCallback_fields [simp]:
  "clock (runCallback c s) = clock s" "mounted (runCallback c s) = mounted s"
  "inputValue (runCallback c s) = inputValue s"
  by (cases c; simp add: setBreathOpacity_def setIsVisible_def setPhase_def)+




















subsection \<open>Teardown\<close>

text \<open>
  Claim C3 at a teardown 3000 ms after mount. The cleanup clears the handle of the
  silence timer, which fired at 2500 ms; the seven timers that callback armed and that
  have not fired yet all stay in the queue, the next one due at 3300 ms, and the queue
  only empties because they fire, the last at 11500 ms. A teardown before 2500 ms, in
  contrast, leaves the queue empty.
\<close>

theorem teardown_leaves_nested_timers:
  "timers (run (mount rnd w h ctx) [Wait 3000, Unmount])
     = [\<lparr>timer_id = 2, due = 3300, cb = BreathStep 0.3\<rparr>,
        \<lparr>timer_id = 3, due = 4100, cb = BreathStep 0.1\<rparr>,
        \<lparr>timer_id = 4, due = 4900, cb = BreathStep 0.25\<rparr>,
        \<lparr>timer_id = 5, due = 5700, cb = BreathStep 0\<rparr>,
        \<lparr>timer_id = 6, due = 6000, cb = AwakeningTimer\<rparr>,
        \<lparr>timer_id = 7, due = 9000, cb = ReadyTimer\<rparr>,
        \<lparr>timer_id = 8, due = 11500, cb = VisibleTimer\<rparr>]
   \<and> \<not> mounted (run (mount rnd w h ctx) [Wait 3000, Unmount])
   \<and> earliest (timers (run (mount rnd w h ctx) [Wait 3000, Unmount]))
       = Some \<lparr>timer_id = 2, due = 3300, cb = BreathStep 0.3\<rparr>
   \<and> timers (run (mount rnd w h ctx) [Wait 3000, Unmount, Wait 8499])
       = [\<lparr>timer_id = 8, due = 11500, cb = VisibleTimer\<rparr>]
   \<and> timers (run (mount rnd w h ctx) [Wait 3000, Unmount, Wait 8500]) = []
   \<and> timers (run (mount rnd w h ctx) [Wait 1000, Unmount]) = []"
  by (simp add: advance.simps eval_defs)

subsection \<open>The timeline\<close>



subsection \<open>Stars stay between the planes\<close>


lemma drawStar_position [simp]:
  "star_z (fst (drawStar w h st)) = star_z st"
  "star_x (fst (drawStar w h st)) = star_x st"
  "star_y (fst (drawStar w h st)) = star_y st"
  by (simp_all add: drawStar_def Let_def)

lemma stepStar_fst: "fst (stepStar speed w h rnd k st) = fst (drawStar w h (fst (moveStar speed rnd k st)))"
  by (simp add: stepStar_def split: prod.splits)



lemma length_stepStars [simp]: "length (fst (stepStars speed w h rnd k sts)) = length sts"
proof (induction sts arbitrary: k)
  case Nil
  then show ?case by simp
next
  case (Cons a sts)
  obtain a' ds k1 where a: "stepStar speed w h rnd k a = (a', ds, k1)" by (cases "stepStar speed w h rnd k a")
  obtain sts' ds' k2 where r: "stepStars speed w h rnd k1 sts = (sts', ds', k2)"
    by (cases "stepStars speed w h rnd k1 sts")
  have "length sts' = length sts" using Cons.IH [of k1] r by simp
  then show ?case using a r by simp
qed

lemma starsRef_animate:
  "starsRef (animate s)
     = fst (stepStars (ease (speedRef s) (targetSpeedRef s)) (canvasWidth s) (canvasHeight s)
              (random s) (randomPos s) (starsRef s))"
  by (simp add: animate_def Let_def split: prod.splits)













lemma length_starsRef_animate [simp]: "length (starsRef (animate s)) = length (starsRef s)"
  by (simp add: starsRef_animate)



lemma moveStar_respawn:
  "star_z p - v \<le> MIN_Z \<Longrightarrow>
   moveStar v rnd k p
     = (\<lparr>star_x = (rnd k - 0.5) * 2, star_y = (rnd (k + 1) - 0.5) * 2, star_z = MAX_Z,
         prevX = None, prevY = None\<rparr>, k + 2)"
  by (simp add: moveStar_def)

lemma moveStar_advance:
  "MIN_Z < star_z p - v \<Longrightarrow> moveStar v rnd k p = (p\<lparr>star_z := star_z p - v\<rparr>, k)"
  by (simp add: moveStar_def)





subsection \<open>Stars off the surface\<close>

lemma offSurface_drawStar [simp]: "offSurface w h (fst (drawStar w' h' p)) = offSurface w h p"
  by (simp add: offSurface_def projX_def projY_def)

lemma far_plane_projection:
  fixes r W :: real
  assumes "0 \<le> r" "r < 1" "0 \<le> W"
  shows "- 50 \<le> (r - 0.5) * 2 * (1 / MAX_Z) * W + W"
    and "(r - 0.5) * 2 * (1 / MAX_Z) * W + W \<le> 2 * W + 50"
proof -
  have e: "(r - 0.5) * 2 * (1 / MAX_Z) * W + W = W * (0.6 + 0.8 * r)"
    by (simp add: MAX_Z_def field_simps)
  have "0 \<le> W * (0.6 + 0.8 * r)" using assms by (intro mult_nonneg_nonneg) simp_all
  then show "- 50 \<le> (r - 0.5) * 2 * (1 / MAX_Z) * W + W" unfolding e by simp
  have "W * (0.6 + 0.8 * r) \<le> W * 2" using assms by (intro mult_left_mono) simp_all
  then show "(r - 0.5) * 2 * (1 / MAX_Z) * W + W \<le> 2 * W + 50" unfolding e by simp
qed

lemma respawned_on_surface:
  assumes "\<forall>n. 0 \<le> rnd n \<and> rnd n < 1" "star_z p - v \<le> MIN_Z"
  shows "\<not> offSurface w h (fst (moveStar v rnd k p))"
proof -
  have x: "0 \<le> rnd k" "rnd k < 1" and y: "0 \<le> rnd (k + 1)" "rnd (k + 1) < 1"
    using assms(1) by simp_all
  have w: "(0::real) \<le> real w / 2" and h: "(0::real) \<le> real h / 2" by simp_all
  show ?thesis
    using far_plane_projection [OF x w] far_plane_projection [OF y h]
    by (simp add: moveStar_respawn [OF assms(2)] offSurface_def projX_def projY_def)
qed

lemma skipped_star:
  assumes "\<forall>n. 0 \<le> rnd n \<and> rnd n < 1" "offSurface w h (fst (moveStar v rnd k p))"
  shows "stepStar v w h rnd k p = (p\<lparr>star_z := star_z p - v\<rparr>, [], k)"
proof -
  have "\<not> star_z p - v \<le> MIN_Z" using respawned_on_surface [OF assms(1)] assms(2) by blast
  then have m: "moveStar v rnd k p = (p\<lparr>star_z := star_z p - v\<rparr>, k)"
    by (simp add: moveStar_advance)
  then have "offSurface w h (p\<lparr>star_z := star_z p - v\<rparr>)" using assms(2) by simp
  then show ?thesis by (simp add: stepStar_def m drawStar_def)
qed

lemma stepStars_nth:
  "i < length sts \<Longrightarrow>
   \<exists>k'. fst (stepStars v w h rnd k sts) ! i = fst (stepStar v w h rnd k' (sts ! i))"
proof (induction sts arbitrary: k i)
  case Nil
  then show ?case by simp
next
  case (Cons a sts)
  obtain a' ds k1 where a: "stepStar v w h rnd k a = (a', ds, k1)" by (cases "stepStar v w h rnd k a")
  obtain sts' ds' k2 where r: "stepStars v w h rnd k1 sts = (sts', ds', k2)"
    by (cases "stepStars v w h rnd k1 sts")
  show ?case
  proof (cases i)
    case 0
    have "fst (stepStars v w h rnd k (a # sts)) ! 0 = fst (stepStar v w h rnd k a)"
      using a r by simp
    then show ?thesis using 0 by auto
  next
    case (Suc j)
    then have "j < length sts" using Cons.prems by simp
    then obtain k' where "fst (stepStars v w h rnd k1 sts) ! j = fst (stepStar v w h rnd k' (sts ! j))"
      using Cons.IH by blast
    then have "fst (stepStars v w h rnd k (a # sts)) ! Suc j = fst (stepStar v w h rnd k' (sts ! j))"
      using a r by simp
    then show ?thesis using Suc by auto
  qed
qed

lemma skipped_in_frame:
  assumes "\<forall>n. 0 \<le> random s n \<and> random s n < 1" "i < length (starsRef s)"
    "offSurface (canvasWidth s) (canvasHeight s) (starsRef (animate s) ! i)"
  shows "prevX (starsRef (animate s) ! i) = prevX (starsRef s ! i)
         \<and> prevY (starsRef (animate s) ! i) = prevY (starsRef s ! i)"
proof -
  let ?v = "ease (speedRef s) (targetSpeedRef s)"
  obtain k' where k': "starsRef (animate s) ! i
      = fst (stepStar ?v (canvasWidth s) (canvasHeight s) (random s) k' (starsRef s ! i))"
    unfolding starsRef_animate using stepStars_nth [OF assms(2)] by blast
  have "offSurface (canvasWidth s) (canvasHeight s) (fst (moveStar ?v (random s) k' (starsRef s ! i)))"
    using assms(3) unfolding k' stepStar_fst by simp
  then show ?thesis unfolding k' using skipped_star [OF assms(1)] by simp
qed

text \<open>
  Claim C9. With \<^verbatim>\<open>Math.random\<close> in its range: in a frame, every star whose projection is
  more than 50 px outside the canvas keeps the previous projection it had before the
  frame; the loop body for such a star draws nothing, reads no random number and only
  moves the star. The stale projection can come back as a trail: a star at depth 0.46
  moving 0.01 a frame on an 800 by 600 canvas is drawn at (7600/9, 300), is skipped in
  the next frame (its projection 9500/11 is beyond 850), and when the canvas is then
  200 wide it is drawn with a line that starts at (7600/9, 300).
\<close>

theorem off_surface_star_skipped:
  assumes "\<forall>n. 0 \<le> random s n \<and> random s n < 1"
  shows "(\<forall>i<length (starsRef s).
            offSurface (canvasWidth s) (canvasHeight s) (starsRef (animate s) ! i) \<longrightarrow>
              prevX (starsRef (animate s) ! i) = prevX (starsRef s ! i) \<and>
              prevY (starsRef (animate s) ! i) = prevY (starsRef s ! i))
         \<and> (offSurface w h (fst (moveStar v (random s) k p)) \<longrightarrow>
              stepStar v w h (random s) k p = (p\<lparr>star_z := star_z p - v\<rparr>, [], k))
         \<and> stepStar 0.01 800 600 rnd n
              \<lparr>star_x = 0.5, star_y = 0, star_z = 0.46, prevX = None, prevY = None\<rparr>
            = (\<lparr>star_x = 0.5, star_y = 0, star_z = 0.45,
                 prevX = Some (7600 / 9), prevY = Some 300\<rparr>,
               [Arc (7600 / 9) 300 1.64 1], n)
         \<and> stepStar 0.01 800 600 rnd n
              \<lparr>star_x = 0.5, star_y = 0, star_z = 0.45,
                prevX = Some (7600 / 9), prevY = Some 300\<rparr>
            = (\<lparr>star_x = 0.5, star_y = 0, star_z = 0.44,
                 prevX = Some (7600 / 9), prevY = Some 300\<rparr>, [], n)
         \<and> stepStar 0.01 200 600 rnd n
              \<lparr>star_x = 0.5, star_y = 0, star_z = 0.44,
                prevX = Some (7600 / 9), prevY = Some 300\<rparr>
            = (\<lparr>star_x = 0.5, star_y = 0, star_z = 0.43,
                 prevX = Some (9300 / 43), prevY = Some 300\<rparr>,
               [Line (7600 / 9) 300 (9300 / 43) 300 0.6 0.828, Arc (9300 / 43) 300 1.656 1], n)"
proof -
  have a: "\<forall>i<length (starsRef s).
            offSurface (canvasWidth s) (canvasHeight s) (starsRef (animate s) ! i) \<longrightarrow>
              prevX (starsRef (animate s) ! i) = prevX (starsRef s ! i) \<and>
              prevY (starsRef (animate s) ! i) = prevY (starsRef s ! i)"
    using skipped_in_frame [OF assms] by blast
  have b: "offSurface w h (fst (moveStar v (random s) k p)) \<longrightarrow>
              stepStar v w h (random s) k p = (p\<lparr>star_z := star_z p - v\<rparr>, [], k)"
    using skipped_star [OF assms] by blast
  have c: "stepStar 0.01 800 600 rnd n
              \<lparr>star_x = 0.5, star_y = 0, star_z = 0.46, prevX = None, prevY = None\<rparr>
            = (\<lparr>star_x = 0.5, star_y = 0, star_z = 0.45,
                 prevX = Some (7600 / 9), prevY = Some 300\<rparr>,
               [Arc (7600 / 9) 300 1.64 1], n)"
    by (simp add: stepStar_def moveStar_def drawStar_def offSurface_def projX_def projY_def
        MIN_Z_def MAX_Z_def Let_def)
  have d: "stepStar 0.01 800 600 rnd n
              \<lparr>star_x = 0.5, star_y = 0, star_z = 0.45,
                prevX = Some (7600 / 9), prevY = Some 300\<rparr>
            = (\<lparr>star_x = 0.5, star_y = 0, star_z = 0.44,
                 prevX = Some (7600 / 9), prevY = Some 300\<rparr>, [], n)"
    by (simp add: stepStar_def moveStar_def drawStar_def offSurface_def projX_def projY_def
        MIN_Z_def MAX_Z_def Let_def)
  have e: "stepStar 0.01 200 600 rnd n
              \<lparr>star_x = 0.5, star_y = 0, star_z = 0.44,
                prevX = Some (7600 / 9), prevY = Some 300\<rparr>
            = (\<lparr>star_x = 0.5, star_y = 0, star_z = 0.43,
                 prevX = Some (9300 / 43), prevY = Some 300\<rparr>,
               [Line (7600 / 9) 300 (9300 / 43) 300 0.6 0.828, Arc (9300 / 43) 300 1.656 1], n)"
    by (simp add: stepStar_def moveStar_def drawStar_def offSurface_def projX_def projY_def
        MIN_Z_def MAX_Z_def Let_def)
  from a b c d e show ?thesis by blast
qed

theorem off_surface_star_skipped_witness:
  "(\<forall>n. 0 \<le> random ((mount (\<lambda>n. 1 / 2) 800 600 True)
            \<lparr>starsRef := [\<lparr>star_x = 0.5, star_y = 0, star_z = 0.44,
                           prevX = Some (7600 / 9), prevY = Some 300\<rparr>],
              canvasWidth := 800, canvasHeight := 600\<rparr>) n
         \<and> random ((mount (\<lambda>n. 1 / 2) 800 600 True)
            \<lparr>starsRef := [\<lparr>star_x = 0.5, star_y = 0, star_z = 0.44,
                           prevX = Some (7600 / 9), prevY = Some 300\<rparr>],
              canvasWidth := 800, canvasHeight := 600\<rparr>) n < 1)
   \<and> offSurface 800 600
        (starsRef (animate ((mount (\<lambda>n. 1 / 2) 800 600 True)
            \<lparr>starsRef := [\<lparr>star_x = 0.5, star_y = 0, star_z = 0.44,
                           prevX = Some (7600 / 9), prevY = Some 300\<rparr>],
              canvasWidth := 800, canvasHeight := 600\<rparr>)) ! 0)
   \<and> prevX (starsRef (animate ((mount (\<lambda>n. 1 / 2) 800 600 True)
            \<lparr>starsRef := [\<lparr>star_x = 0.5, star_y = 0, star_z = 0.44,
                           prevX = Some (7600 / 9), prevY = Some 300\<rparr>],
              canvasWidth := 800, canvasHeight := 600\<rparr>)) ! 0) = Some (7600 / 9)
   \<and> painted (animate ((mount (\<lambda>n. 1 / 2) 800 600 True)
            \<lparr>starsRef := [\<lparr>star_x = 0.5, star_y = 0, star_z = 0.44,
                           prevX = Some (7600 / 9), prevY = Some 300\<rparr>],
              canvasWidth := 800, canvasHeight := 600\<rparr>)) = [FillRect 800 600]"
proof -
  let ?s = "(mount (\<lambda>n. 1 / 2) 800 600 True)
            \<lparr>starsRef := [\<lparr>star_x = 0.5, star_y = 0, star_z = 0.44,
                           prevX = Some (7600 / 9), prevY = Some 300\<rparr>],
              canvasWidth := 800, canvasHeight := 600\<rparr>"
  have r: "\<forall>n. 0 \<le> random ?s n \<and> random ?s n < 1" by (simp add: eval_defs)
  have cw: "canvasWidth ?s = 800" "canvasHeight ?s = 600" "length (starsRef ?s) = 1"
    "prevX (starsRef ?s ! 0) = Some (7600 / 9)" by simp_all
  have off: "offSurface 800 600 (starsRef (animate ?s) ! 0)"
    by (simp add: starsRef_animate eval_defs ease_def stepStar_def moveStar_def drawStar_def
        offSurface_def projX_def projY_def MIN_Z_def MAX_Z_def Let_def)
  have pt: "painted (animate ?s) = [FillRect 800 600]"
    by (simp add: animate_def eval_defs ease_def stepStar_def moveStar_def drawStar_def
        offSurface_def projX_def projY_def MIN_Z_def MAX_Z_def Let_def)
  have "\<forall>i<length (starsRef ?s).
            offSurface (canvasWidth ?s) (canvasHeight ?s) (starsRef (animate ?s) ! i) \<longrightarrow>
              prevX (starsRef (animate ?s) ! i) = prevX (starsRef ?s ! i) \<and>
              prevY (starsRef (animate ?s) ! i) = prevY (starsRef ?s ! i)"
    using off_surface_star_skipped [OF r] by blast
  then have "prevX (starsRef (animate ?s) ! 0) = Some (7600 / 9)"
    using off unfolding cw by simp
  then show ?thesis using r off pt by blast
qed

end
